theory Spec2Isabelle
  imports Main "HOL-Library.Word"
begin

section \<open>Ring signatures over an elliptic curve (crypto/ring/ring.go)\<close>

text \<open>
  The Go package has three functions, \<^verbatim>\<open>GenNewKeyRing\<close>, \<^verbatim>\<open>Sign\<close> and \<^verbatim>\<open>Verify\<close>.
  They are embedded below as HOL functions. What the Go code takes from other packages
  is a parameter of the model:
  \<^item> the elliptic curve (\<^verbatim>\<open>elliptic.Curve\<close>, an interface value) is a record of
    the methods the code calls;
  \<^item> the hash \<^verbatim>\<open>sha3.Sum256\<close> is a function from bytes to bytes;
  \<^item> \<^verbatim>\<open>rand.Reader\<close> is a list of answers, one for each call of \<^verbatim>\<open>rand.Int\<close>, each
    a function of the bound that the call passes.
  Public keys are handled through pointers (\<^verbatim>\<open>*ecdsa.PublicKey\<close>) and the code compares
  such pointers, so the keys live in an explicit store and a ring is a list of addresses.
  Go's \<^verbatim>\<open>int\<close> is modelled as \<open>int\<close> (no arithmetic of the code can overflow on a
  slice index), \<^verbatim>\<open>*big.Int\<close> as \<open>int option\<close> where \<open>None\<close> is the \<^verbatim>\<open>nil\<close> pointer,
  a run-time panic (index out of range, nil dereference, division by zero) as the
  error value \<open>Panic\<close>.
\<close>

subsection \<open>Errors\<close>

text \<open>
  The Go code builds its errors with \<^verbatim>\<open>errors.New\<close>:
  \<open>InvalidRingSize\<close> is "size of ring less than two",
  \<open>IndexOutOfRange\<close> is "secret index out of range of ring size",
  \<open>SignerMismatch\<close> is "secret index in ring is not signer",
  \<open>RingClosureFailure\<close> is "error closing ring",
  \<open>RandomGenerationFailure\<close> is the error that the random source returns.
\<close>

datatype error =
    InvalidRingSize
  | IndexOutOfRange
  | SignerMismatch
  | RandomGenerationFailure
  | RingClosureFailure
  | Panic

definition bindE :: "error + 'a \<Rightarrow> ('a \<Rightarrow> error + 'b) \<Rightarrow> error + 'b" where
  "bindE m f = (case m of Inl e \<Rightarrow> Inl e | Inr x \<Rightarrow> f x)"

subsection \<open>Slices, pointers, big integers\<close>

type_synonym byte = "8 word"

text \<open>\<^verbatim>\<open>xs[i]\<close> and \<^verbatim>\<open>xs[i] = v\<close> on a Go slice: out of range they panic.\<close>

definition index :: "'a list \<Rightarrow> int \<Rightarrow> error + 'a" where
  "index xs i = (if 0 \<le> i \<and> i < int (length xs) then Inr (xs ! nat i) else Inl Panic)"

definition store :: "'a list \<Rightarrow> int \<Rightarrow> 'a \<Rightarrow> error + 'a list" where
  "store xs i v = (if 0 \<le> i \<and> i < int (length xs) then Inr (xs[nat i := v]) else Inl Panic)"

text \<open>\<^verbatim>\<open>make([]T, n)\<close> for a pointer type \<^verbatim>\<open>T\<close>: \<^verbatim>\<open>n\<close> nil entries, a panic when \<^verbatim>\<open>n\<close> is negative.\<close>

definition make_slice :: "int \<Rightarrow> error + 'a option list" where
  "make_slice n = (if n < 0 then Inl Panic else Inr (replicate (nat n) None))"

text \<open>Go's \<^verbatim>\<open>%\<close> on \<^verbatim>\<open>int\<close> truncates towards zero (the sign of the dividend).\<close>

definition go_rem :: "int \<Rightarrow> int \<Rightarrow> int" where
  "go_rem a b = sgn a * (\<bar>a\<bar> mod \<bar>b\<bar>)"

text \<open>
  \<^verbatim>\<open>(*big.Int).Bytes\<close> is the big-endian encoding of the absolute value, without
  leading zeros; \<^verbatim>\<open>SetBytes\<close> reads a big-endian unsigned integer.
\<close>

fun nat_bytes :: "nat \<Rightarrow> byte list" where
  "nat_bytes n = (if n = 0 then [] else nat_bytes (n div 256) @ [of_nat (n mod 256)])"

declare nat_bytes.simps [simp del]

definition Bytes :: "int \<Rightarrow> byte list" where
  "Bytes x = nat_bytes (nat \<bar>x\<bar>)"

definition SetBytes :: "byte list \<Rightarrow> int" where
  "SetBytes bs = int (foldl (\<lambda>a b. a * 256 + unat b) 0 bs)"

text \<open>\<^verbatim>\<open>x.Bytes()\<close> on a \<^verbatim>\<open>*big.Int\<close>: a nil receiver is a nil dereference.\<close>

definition big_Bytes :: "int option \<Rightarrow> error + byte list" where
  "big_Bytes x = (case x of None \<Rightarrow> Inl Panic | Some v \<Rightarrow> Inr (Bytes v))"

text \<open>\<^verbatim>\<open>new(big.Int).Mod(x, y)\<close>: the Euclidean modulus, a panic when \<^verbatim>\<open>y\<close> is 0.\<close>

definition big_Mod :: "int \<Rightarrow> int \<Rightarrow> error + int" where
  "big_Mod x y = (if y = 0 then Inl Panic else Inr (x mod \<bar>y\<bar>))"

subsection \<open>Curves, keys and the store\<close>

text \<open>
  The methods of \<^verbatim>\<open>elliptic.Curve\<close> that the code calls. \<^verbatim>\<open>Params().P\<close> is the prime
  of the field, \<^verbatim>\<open>Params().N\<close> the order of the group. A point is a pair of
  coordinates; the methods take the coordinates one by one, as in Go.
\<close>

record curve =
  Params_P :: int
  Params_N :: int
  Add :: "int \<Rightarrow> int \<Rightarrow> int \<Rightarrow> int \<Rightarrow> int \<times> int"
  ScalarMult :: "int \<Rightarrow> int \<Rightarrow> byte list \<Rightarrow> int \<times> int"
  ScalarBaseMult :: "byte list \<Rightarrow> int \<times> int"

text \<open>
  \<^verbatim>\<open>ecdsa.PublicKey{Curve, X, Y}\<close> and \<^verbatim>\<open>ecdsa.PrivateKey{PublicKey, D}\<close>. The fields
  carry the name of their struct as a prefix. The private key embeds its public key, and
  \<^verbatim>\<open>privkey.Public()\<close> returns the address of that embedded struct: \<open>priv_PublicKey\<close>
  is this address. The coordinates and \<open>D\<close> of a key are modelled as populated.
\<close>

record PublicKey =
  pub_Curve :: curve
  pub_X :: int
  pub_Y :: int

record PrivateKey =
  priv_PublicKey :: nat
  priv_D :: int

text \<open>
  The store of public keys: an address is an index into it, a pointer is an address or
  \<^verbatim>\<open>nil\<close>. Allocation appends. Two pointers are equal in Go exactly when they are the same
  address (or both nil), whatever the structs they point to hold.
\<close>

type_synonym heap = "PublicKey list"
type_synonym ptr = "nat option"

definition deref :: "heap \<Rightarrow> ptr \<Rightarrow> error + PublicKey" where
  "deref h p = (case p of None \<Rightarrow> Inl Panic
                | Some a \<Rightarrow> if a < length h then Inr (h ! a) else Inl Panic)"

text \<open>\<^verbatim>\<open>type RingSign struct { Size; M; C; S; Ring; Curve }\<close>\<close>

record RingSign =
  sig_Size :: int
  sig_M :: "byte list"
  sig_C :: "int option"
  sig_S :: "int option list"
  sig_Ring :: "ptr list"
  sig_Curve :: curve

subsection \<open>The random source\<close>

text \<open>
  \<^verbatim>\<open>rand.Int(rand.Reader, max)\<close> panics when \<^verbatim>\<open>max <= 0\<close>; otherwise it returns an
  error or an integer. The reader is the list of its future answers, each one a function
  of the bound of the call that consumes it; an empty list is a source that is exhausted.
\<close>

type_synonym reader = "(int \<Rightarrow> error + int) list"

definition rand_Int :: "reader \<Rightarrow> int \<Rightarrow> (error + int) \<times> reader" where
  "rand_Int rd bound =
     (if bound \<le> 0 then (Inl Panic, rd)
      else case rd of [] \<Rightarrow> (Inl RandomGenerationFailure, [])
           | f # rd' \<Rightarrow> (f bound, rd'))"

subsection \<open>One link of the challenge chain\<close>

text \<open>
  The same four lines occur three times in the code (lines 106-109 in the loop of
  \<^verbatim>\<open>Sign\<close>, 122-127 where it closes the ring, 155-158 in \<^verbatim>\<open>Verify\<close>):
  \<^verbatim>\<open>
  px, py := curve.ScalarMult(ring[idx].X, ring[idx].Y, C[idx].Bytes())
  sx, sy := curve.ScalarBaseMult(s_i.Bytes())
  tx, ty := curve.Add(sx, sy, px, py)
  C_i = sha3.Sum256(append(m, append(tx.Bytes(), ty.Bytes()...)...))
  \<close>
  \<open>ring_point\<close> is the first three lines, with the response \<open>sv\<close> as the pointer
  that the code holds at that place; \<open>hash_point\<close> is the fourth, followed by the
  \<^verbatim>\<open>new(big.Int).SetBytes(C_i[:])\<close> that every occurrence applies to the digest.
\<close>

definition ring_point ::
  "heap \<Rightarrow> curve \<Rightarrow> ptr list \<Rightarrow> int option list \<Rightarrow> int \<Rightarrow> int option \<Rightarrow> error + int \<times> int" where
  "ring_point h curve ring Cs idx sv =
     bindE (index ring idx) (\<lambda>p.
     bindE (deref h p) (\<lambda>pk.
     bindE (index Cs idx) (\<lambda>c.
     bindE (big_Bytes c) (\<lambda>cb.
     bindE (big_Bytes sv) (\<lambda>sb.
       let (px, py) = ScalarMult curve (pub_X pk) (pub_Y pk) cb;
           (sx, sy) = ScalarBaseMult curve sb
       in Inr (Add curve sx sy px py))))))"

definition hash_point :: "(byte list \<Rightarrow> byte list) \<Rightarrow> byte list \<Rightarrow> int \<times> int \<Rightarrow> int" where
  "hash_point Sum256 m t = (case t of (tx, ty) \<Rightarrow> SetBytes (Sum256 (m @ Bytes tx @ Bytes ty)))"

subsection \<open>Sign\<close>

text \<open>
  The loop of lines 95-116, \<^verbatim>\<open>for i := 1; i < ringsize; i++\<close>, with the slices \<^verbatim>\<open>C\<close> and
  \<^verbatim>\<open>S\<close> and the reader as its state. The code stores \<^verbatim>\<open>s_i\<close> into \<^verbatim>\<open>S[idx]\<close> before it
  looks at \<^verbatim>\<open>err\<close>.
\<close>

function Sign_loop ::
  "(byte list \<Rightarrow> byte list) \<Rightarrow> heap \<Rightarrow> curve \<Rightarrow> byte list \<Rightarrow> ptr list \<Rightarrow> int \<Rightarrow> int \<Rightarrow> int
     \<Rightarrow> int option list \<Rightarrow> int option list \<Rightarrow> reader
     \<Rightarrow> error + int option list \<times> int option list" where
  "Sign_loop Sum256 h curve m ring ringsize s i Cs Ss rd =
     (if i < ringsize then
        let idx = go_rem (s + i) ringsize in
        case rand_Int rd (Params_P curve) of (r, rd') \<Rightarrow>
        bindE (store Ss idx (case r of Inl e \<Rightarrow> None | Inr s_i \<Rightarrow> Some s_i)) (\<lambda>Ss'.
        case r of Inl err \<Rightarrow> Inl err
        | Inr s_i \<Rightarrow>
            bindE (ring_point h curve ring Cs idx (Some s_i)) (\<lambda>t.
            bindE (if i = ringsize - 1
                   then store Cs s (Some (hash_point Sum256 m t))
                   else store Cs (go_rem (idx + 1) ringsize) (Some (hash_point Sum256 m t)))
              (\<lambda>Cs'. Sign_loop Sum256 h curve m ring ringsize s (i + 1) Cs' Ss' rd')))
      else Inr (Cs, Ss))"
  by pat_completeness auto
termination
  by (relation "measure (\<lambda>(Sum256, h, curve, m, ring, ringsize, s, i, Cs, Ss, rd). nat (ringsize - i))")
     auto

declare Sign_loop.simps [simp del]

text \<open>
  \<^verbatim>\<open>Sign(m, ring, privkey, s)\<close>, lines 54-139. \<^verbatim>\<open>ring[s] != pubkey\<close> compares two values of
  type \<^verbatim>\<open>*ecdsa.PublicKey\<close>, that is two addresses. The result is the signature or the
  error; the state of the reader after the call is not part of it.
\<close>

definition Sign ::
  "(byte list \<Rightarrow> byte list) \<Rightarrow> heap \<Rightarrow> byte list \<Rightarrow> ptr list \<Rightarrow> PrivateKey option \<Rightarrow> int
     \<Rightarrow> reader \<Rightarrow> error + RingSign" where
  "Sign Sum256 h m ring privkey s rd =
     (let ringsize = int (length ring) in
      if ringsize < 2 then Inl InvalidRingSize
      else if s \<ge> ringsize \<or> s < 0 then Inl IndexOutOfRange
      else
        case privkey of None \<Rightarrow> Inl Panic
        | Some k \<Rightarrow>
            let pubkey = Some (priv_PublicKey k) in
            bindE (deref h pubkey) (\<lambda>pk.
            let curve = pub_Curve pk in
            bindE (index ring s) (\<lambda>ring_s.
            if ring_s \<noteq> pubkey then Inl SignerMismatch
            else
              bindE (make_slice ringsize) (\<lambda>Cs.
              bindE (make_slice ringsize) (\<lambda>Ss.
              case rand_Int rd (Params_P curve) of (r, rd') \<Rightarrow>
              (case r of Inl err \<Rightarrow> Inl err
              | Inr u \<Rightarrow>
                  let (ux, uy) = ScalarBaseMult curve (Bytes u);
                      C_i = SetBytes (Sum256 (m @ Bytes ux @ Bytes uy));
                      idx = go_rem (s + 1) ringsize
                  in
                  bindE (store Cs idx (Some C_i)) (\<lambda>Cs1.
                  bindE (Sign_loop Sum256 h curve m ring ringsize s 1 Cs1 Ss rd') (\<lambda>(Cs2, Ss2).
                  bindE (index Cs2 s) (\<lambda>C_s.
                  case C_s of None \<Rightarrow> Inl Panic
                  | Some c \<Rightarrow>
                      bindE (big_Mod (c * priv_D k) (Params_N curve)) (\<lambda>cd.
                      bindE (store Ss2 s (Some (u - cd))) (\<lambda>Ss3.
                      bindE (index Ss3 s) (\<lambda>S_s.
                      bindE (ring_point h curve ring Cs2 s S_s) (\<lambda>(tx, ty).
                      let C_big = hash_point Sum256 m (tx, ty) in
                      bindE (index Cs2 (go_rem (s + 1) ringsize)) (\<lambda>C_next.
                      bindE (big_Bytes C_next) (\<lambda>C_next_bytes.
                      if Bytes tx \<noteq> Bytes ux \<or> Bytes ty \<noteq> Bytes uy
                           \<or> C_next_bytes \<noteq> Bytes C_big
                      then Inl RingClosureFailure
                      else
                        bindE (index Cs2 0) (\<lambda>C_0.
                        Inr \<lparr>sig_Size = ringsize, sig_M = m, sig_C = C_0, sig_S = Ss3,
                             sig_Ring = ring, sig_Curve = curve\<rparr>))))))))))))))))"

subsection \<open>Verify\<close>

text \<open>The loop of lines 154-164, \<^verbatim>\<open>for i := 0; i < ringsize; i++\<close>, with \<^verbatim>\<open>C\<close> as its state.\<close>

function Verify_loop ::
  "(byte list \<Rightarrow> byte list) \<Rightarrow> heap \<Rightarrow> curve \<Rightarrow> RingSign \<Rightarrow> int \<Rightarrow> int \<Rightarrow> int option list
     \<Rightarrow> error + int option list" where
  "Verify_loop Sum256 h curve sg ringsize i Cs =
     (if i < ringsize then
        bindE (index (sig_S sg) i) (\<lambda>S_i.
        bindE (ring_point h curve (sig_Ring sg) Cs i S_i) (\<lambda>t.
        bindE (if i = ringsize - 1
               then store Cs 0 (Some (hash_point Sum256 (sig_M sg) t))
               else store Cs (i + 1) (Some (hash_point Sum256 (sig_M sg) t)))
          (\<lambda>Cs'. Verify_loop Sum256 h curve sg ringsize (i + 1) Cs')))
      else Inr Cs)"
  by pat_completeness auto
termination
  by (relation "measure (\<lambda>(Sum256, h, curve, sg, ringsize, i, Cs). nat (ringsize - i))") auto

declare Verify_loop.simps [simp del]

text \<open>
  \<^verbatim>\<open>Verify(sig)\<close>, lines 143-167. Go returns \<^verbatim>\<open>(bool, error)\<close> and the error is always
  \<^verbatim>\<open>nil\<close>: the only failure is a panic. The curve is the one of \<^verbatim>\<open>ring[0]\<close>; the field
  \<^verbatim>\<open>sig.Curve\<close> is not read.
\<close>

definition Verify :: "(byte list \<Rightarrow> byte list) \<Rightarrow> heap \<Rightarrow> RingSign \<Rightarrow> error + bool" where
  "Verify Sum256 h sg =
     (let ring = sig_Ring sg; ringsize = sig_Size sg in
      bindE (make_slice ringsize) (\<lambda>Cs.
      bindE (store Cs 0 (sig_C sg)) (\<lambda>Cs0.
      bindE (index ring 0) (\<lambda>ring_0.
      bindE (deref h ring_0) (\<lambda>pk.
      let curve = pub_Curve pk in
      bindE (Verify_loop Sum256 h curve sg ringsize 0 Cs0) (\<lambda>Cs'.
      bindE (big_Bytes (sig_C sg)) (\<lambda>a.
      bindE (index Cs' 0) (\<lambda>C_0.
      bindE (big_Bytes C_0) (\<lambda>b.
        Inr (a = b))))))))))"

subsection \<open>GenNewKeyRing\<close>

text \<open>
  Modelled from the spec: \<^verbatim>\<open>crypto.GenerateKey\<close> of the go-ethereum package
  \<^verbatim>\<open>crypto\<close> is not among the sources. The spec says of it that it "generates a fresh
  random key pair" and that it can fail when the random source errors or is exhausted.
  The key source is the list of the future outcomes of the calls: an error, or the
  private scalar and the public key of the pair. A generated key is a new object: its
  public key is allocated at the end of the store.
\<close>

type_synonym keysource = "(error + int \<times> PublicKey) list"

definition GenerateKey :: "heap \<Rightarrow> keysource \<Rightarrow> (error + PrivateKey) \<times> heap \<times> keysource" where
  "GenerateKey h ks =
     (case ks of [] \<Rightarrow> (Inl RandomGenerationFailure, h, [])
      | Inl e # ks' \<Rightarrow> (Inl e, h, ks')
      | Inr (d, pub) # ks' \<Rightarrow>
          (Inr \<lparr>priv_PublicKey = length h, priv_D = d\<rparr>, h @ [pub], ks'))"

text \<open>
  The loop of lines 35-44, \<^verbatim>\<open>for i := 1; i < size; i++\<close>. When \<^verbatim>\<open>GenerateKey\<close> fails the
  function returns \<^verbatim>\<open>nil\<close>: the nil slice is the empty list here (a ring that the
  function builds is never empty, since line 33 panics on an empty slice).
\<close>

function GenNewKeyRing_loop ::
  "int \<Rightarrow> int \<Rightarrow> int \<Rightarrow> ptr list \<Rightarrow> heap \<Rightarrow> keysource \<Rightarrow> error + ptr list \<times> heap \<times> keysource" where
  "GenNewKeyRing_loop sz s i ring h ks =
     (if i < sz then
        let idx = go_rem (i + s) sz in
        case GenerateKey h ks of
          (Inl err, h', ks') \<Rightarrow> Inr ([], h', ks')
        | (Inr priv, h', ks') \<Rightarrow>
            bindE (store ring idx (Some (priv_PublicKey priv)))
              (\<lambda>ring'. GenNewKeyRing_loop sz s (i + 1) ring' h' ks')
      else Inr (ring, h, ks))"
  by pat_completeness auto
termination
  by (relation "measure (\<lambda>(sz, s, i, ring, h, ks). nat (sz - i))") auto

declare GenNewKeyRing_loop.simps [simp del]

text \<open>
  \<^verbatim>\<open>GenNewKeyRing(size, privkey, s)\<close>, lines 29-47. Go's result type is the slice alone:
  the function has no error result. The model returns the store and the key source
  with it, since the function allocates keys and consumes outcomes; \<open>Inl\<close> is a panic.
\<close>

definition GenNewKeyRing ::
  "int \<Rightarrow> PrivateKey option \<Rightarrow> int \<Rightarrow> heap \<Rightarrow> keysource
     \<Rightarrow> error + ptr list \<times> heap \<times> keysource" where
  "GenNewKeyRing sz privkey s h ks =
     bindE (make_slice sz) (\<lambda>ring.
     case privkey of None \<Rightarrow> Inl Panic
     | Some k \<Rightarrow>
         let pubkey = Some (priv_PublicKey k) in
         bindE (store ring s pubkey) (\<lambda>ring1.
         GenNewKeyRing_loop sz s 1 ring1 h ks))"

subsection \<open>The closure of the challenge chain\<close>

text \<open>
  The chain is linked at position \<open>idx\<close> when the challenge stored after \<open>idx\<close>
  (cyclically) is the hash of the message and of the point
  \<open>S[idx]*G + C[idx]*ring[idx]\<close>, computed as the code computes it.
\<close>

definition linked ::
  "(byte list \<Rightarrow> byte list) \<Rightarrow> heap \<Rightarrow> curve \<Rightarrow> byte list \<Rightarrow> ptr list
     \<Rightarrow> int option list \<Rightarrow> int option list \<Rightarrow> int \<Rightarrow> bool" where
  "linked Sum256 h curve m ring Cs Ss idx =
     (case ring_point h curve ring Cs idx (Ss ! nat idx) of
        Inl e \<Rightarrow> False
      | Inr t \<Rightarrow> Cs ! nat ((idx + 1) mod int (length ring)) = Some (hash_point Sum256 m t))"

subsection \<open>A small instance\<close>

text \<open>
  The concrete inputs of the examples: the curve \<open>y\<^sup>2 = x\<^sup>3 + 7\<close> over the field of
  13 elements, whose group has the prime order 7 and the generator \<open>(7, 5)\<close>; the point
  at infinity is \<open>(0, 0)\<close>, as in Go. The equation is the one of secp256k1. The hash of
  the instance is a 32-byte digest with one significant byte.
\<close>

definition toy_inv :: "int \<Rightarrow> int" where
  "toy_inv a = (a ^ 11) mod 13"

definition toy_Add :: "int \<Rightarrow> int \<Rightarrow> int \<Rightarrow> int \<Rightarrow> int \<times> int" where
  "toy_Add x1 y1 x2 y2 =
     (if x1 = 0 \<and> y1 = 0 then (x2, y2)
      else if x2 = 0 \<and> y2 = 0 then (x1, y1)
      else if x1 = x2 \<and> (y1 + y2) mod 13 = 0 then (0, 0)
      else
        let l = (if x1 = x2 then 3 * x1 * x1 * toy_inv (2 * y1)
                 else (y2 - y1) * toy_inv (x2 - x1)) mod 13;
            x3 = (l * l - x1 - x2) mod 13
        in (x3, (l * (x1 - x3) - y1) mod 13))"

fun toy_mul :: "nat \<Rightarrow> int \<Rightarrow> int \<Rightarrow> int \<times> int" where
  "toy_mul 0 x y = (0, 0)"
| "toy_mul (Suc k) x y = (case toy_mul k x y of (ax, ay) \<Rightarrow> toy_Add ax ay x y)"

definition toy_curve :: curve where
  "toy_curve =
     \<lparr>Params_P = 13, Params_N = 7, Add = toy_Add,
      ScalarMult = (\<lambda>x y k. toy_mul (nat (SetBytes k) mod 7) x y),
      ScalarBaseMult = (\<lambda>k. toy_mul (nat (SetBytes k) mod 7) 7 5)\<rparr>"

definition toy_Sum256 :: "byte list \<Rightarrow> byte list" where
  "toy_Sum256 bs = replicate 31 0 @ [foldl (\<lambda>a b. 3 * a + b + 1) 0 bs]"

text \<open>
  Three keys in the store: \<open>2*G\<close> at address 0, \<open>3*G\<close> at address 1, \<open>6*G\<close> at address
  2; a fourth key at address 3 has the coordinates of the key at address 1. The signer
  holds the private scalar 3 and its public key is the struct at address 1.
\<close>

definition toy_heap :: heap where
  "toy_heap =
     [\<lparr>pub_Curve = toy_curve, pub_X = 8, pub_Y = 5\<rparr>,
      \<lparr>pub_Curve = toy_curve, pub_X = 11, pub_Y = 8\<rparr>,
      \<lparr>pub_Curve = toy_curve, pub_X = 7, pub_Y = 8\<rparr>,
      \<lparr>pub_Curve = toy_curve, pub_X = 11, pub_Y = 8\<rparr>]"

definition toy_key :: PrivateKey where
  "toy_key = \<lparr>priv_PublicKey = 1, priv_D = 3\<rparr>"

definition toy_ring :: "ptr list" where
  "toy_ring = [Some 0, Some 1, Some 2]"

definition toy_msg :: "byte list" where
  "toy_msg = [104, 105]"

text \<open>A reader that answers the calls with the given numbers, reduced below the bound.\<close>

definition toy_reader :: "int list \<Rightarrow> reader" where
  "toy_reader vs = map (\<lambda>v bound. Inr (v mod bound)) vs"

text \<open>
  A signature over the ring of the instance whose initial challenge was replaced by 77.
\<close>

definition toy_sig :: RingSign where
  "toy_sig = \<lparr>sig_Size = 3, sig_M = toy_msg, sig_C = Some 77,
              sig_S = [Some 4, Some 4, Some 0], sig_Ring = toy_ring, sig_Curve = toy_curve\<rparr>"

section \<open>Properties\<close>

subsection \<open>The error monad, slices and bytes\<close>

lemma bindE_Inl [simp]: "bindE (Inl e) f = Inl e"
  by (simp add: bindE_def)

lemma bindE_Inr [simp]: "bindE (Inr x) f = f x"
  by (simp add: bindE_def)

lemma bindE_eq_Inr: "bindE m f = Inr y \<longleftrightarrow> (\<exists>x. m = Inr x \<and> f x = Inr y)"
  by (cases m) simp_all

lemma index_eq_Inr: "index xs i = Inr v \<longleftrightarrow> 0 \<le> i \<and> i < int (length xs) \<and> xs ! nat i = v"
  by (auto simp: index_def)

lemma store_eq_Inr: "store xs i v = Inr ys \<longleftrightarrow> 0 \<le> i \<and> i < int (length xs) \<and> ys = xs[nat i := v]"
  by (auto simp: store_def)

lemma go_rem_nonneg: "0 \<le> a \<Longrightarrow> 0 < b \<Longrightarrow> go_rem a b = a mod b"
  by (cases "a = 0") (simp_all add: go_rem_def)

lemma unat_byte_of_nat: "unat (of_nat (n mod 256) :: byte) = n mod 256"
  by (simp add: unat_of_nat)

lemma foldl_nat_bytes: "foldl (\<lambda>a b. a * 256 + unat b) 0 (nat_bytes n) = n"
proof (induction n rule: nat_bytes.induct)
  case (1 n)
  show ?case
  proof (cases "n = 0")
    case True
    then show ?thesis by (simp add: nat_bytes.simps)
  next
    case False
    have "nat_bytes n = nat_bytes (n div 256) @ [of_nat (n mod 256)]"
      using False by (subst nat_bytes.simps) simp
    then show ?thesis using 1 False by (simp add: unat_byte_of_nat)
  qed
qed

lemma SetBytes_Bytes: "SetBytes (Bytes x) = \<bar>x\<bar>"
  by (simp add: SetBytes_def Bytes_def foldl_nat_bytes)

lemma SetBytes_nonneg: "0 \<le> SetBytes bs"
  by (simp add: SetBytes_def)

lemma Bytes_inj_nonneg: "0 \<le> x \<Longrightarrow> 0 \<le> y \<Longrightarrow> Bytes x = Bytes y \<Longrightarrow> x = y"
  by (metis SetBytes_Bytes abs_of_nonneg)

lemma hash_point_nonneg: "0 \<le> hash_point Sum256 m t"
  by (cases t) (simp add: hash_point_def SetBytes_nonneg)

lemma ring_point_cong:
  "index Cs idx = index Cs' idx \<Longrightarrow>
   ring_point h c ring Cs idx sv = ring_point h c ring Cs' idx sv"
  by (simp add: ring_point_def)

lemma ring_point_Inr:
  "ring_point h c ring Cs idx sv = Inr t \<Longrightarrow>
   0 \<le> idx \<and> idx < int (length ring) \<and> idx < int (length Cs) \<and> sv \<noteq> None
   \<and> Cs ! nat idx \<noteq> None \<and> (\<exists>a. ring ! nat idx = Some a \<and> a < length h)"
  by (auto simp: ring_point_def bindE_eq_Inr index_eq_Inr deref_def big_Bytes_def
      split: option.splits if_splits)

lemma mod_shift_neq:
  fixes s a b n :: int
  assumes "a < b" "b < a + n"
  shows "(s + a) mod n \<noteq> (s + b) mod n"
proof
  assume "(s + a) mod n = (s + b) mod n"
  then have "n dvd ((s + b) - (s + a))"
    by (metis mod_eq_dvd_iff)
  then have "n dvd (b - a)" by simp
  moreover have "0 < b - a" "b - a < n" using assms by auto
  ultimately show False
    using zdvd_not_zless by blast
qed


lemma Sign_loop_done:
  "\<not> i < n \<Longrightarrow> Sign_loop H h c m ring n s i Cs Ss rd = Inr (Cs, Ss)"
  by (subst Sign_loop.simps) simp

lemma Sign_loop_step:
  assumes "Sign_loop H h c m ring n s i Cs Ss rd = Inr res"
    and "i < n" and "0 \<le> s" and "s < n" and "0 \<le> i"
  shows "\<exists>s_i rd' t.
           rand_Int rd (Params_P c) = (Inr s_i, rd')
         \<and> (s + i) mod n < int (length Ss)
         \<and> ring_point h c ring Cs ((s + i) mod n) (Some s_i) = Inr t
         \<and> (s + i + 1) mod n < int (length Cs)
         \<and> Sign_loop H h c m ring n s (i + 1)
              (Cs[nat ((s + i + 1) mod n) := Some (hash_point H m t)])
              (Ss[nat ((s + i) mod n) := Some s_i]) rd' = Inr res"
proof -
  have n: "0 < n" using assms by linarith
  have r1: "go_rem (s + i) n = (s + i) mod n"
    using assms n by (simp add: go_rem_nonneg)
  have r2: "go_rem ((s + i) mod n + 1) n = (s + i + 1) mod n"
    using n by (simp add: go_rem_nonneg mod_add_left_eq)
  have r3: "i = n - 1 \<Longrightarrow> (s + i + 1) mod n = s"
    using assms by simp
  obtain r rd' where rr: "rand_Int rd (Params_P c) = (r, rd')"
    by (cases "rand_Int rd (Params_P c)") auto
  show ?thesis
    using assms(1) assms(2) 
    apply (subst (asm) Sign_loop.simps)
    apply (simp add: Let_def r1 r2 rr bindE_eq_Inr store_eq_Inr split: sum.splits if_splits)
    using r3 apply auto
    done
qed


lemma linked_cong:
  assumes "linked H h c m ring Cs Ss idx"
    and "length Cs = length ring" and "length Cs' = length ring"
    and "Cs' ! nat idx = Cs ! nat idx"
    and "Ss' ! nat idx = Ss ! nat idx"
    and "Cs' ! nat ((idx + 1) mod int (length ring)) = Cs ! nat ((idx + 1) mod int (length ring))"
  shows "linked H h c m ring Cs' Ss' idx"
proof -
  have "index Cs' idx = index Cs idx"
    using assms(2-4) by (simp add: index_def)
  then have "ring_point h c ring Cs' idx (Ss' ! nat idx) = ring_point h c ring Cs idx (Ss ! nat idx)"
    using assms(5) by (simp add: ring_point_def)
  then show ?thesis
    using assms(1,6) by (simp add: linked_def split: sum.splits)
qed

lemma Sign_loop_inv:
  assumes "Sign_loop H h c m ring n s i Cs Ss rd = Inr (Cs', Ss')"
    and "n = int (length ring)" and "length Cs = length ring" and "length Ss = length ring"
    and "0 \<le> s" and "s < n" and "1 \<le> i" and "i \<le> n"
  shows "length Cs' = length ring \<and> length Ss' = length ring
       \<and> (\<forall>j. i \<le> j \<and> j < n \<longrightarrow> linked H h c m ring Cs' Ss' ((s + j) mod n))
       \<and> (\<forall>j. 1 \<le> j \<and> j \<le> i \<longrightarrow> Cs' ! nat ((s + j) mod n) = Cs ! nat ((s + j) mod n))
       \<and> (\<forall>j. 0 \<le> j \<and> j < i \<longrightarrow> Ss' ! nat ((s + j) mod n) = Ss ! nat ((s + j) mod n))"
  using assms
proof (induction "nat (n - i)" arbitrary: i Cs Ss rd)
  case 0
  then have "\<not> i < n" by simp
  with 0 show ?case by (auto simp: Sign_loop_done)
next
  case (Suc k)
  then have lt: "i < n" by linarith
  have i0: "0 \<le> i" using Suc.prems by simp
  from Sign_loop_step [OF Suc.prems(1) lt Suc.prems(5) Suc.prems(6) i0]
  obtain s_i rd' t where
    pt: "ring_point h c ring Cs ((s + i) mod n) (Some s_i) = Inr t"
    and rec: "Sign_loop H h c m ring n s (i + 1)
              (Cs[nat ((s + i + 1) mod n) := Some (hash_point H m t)])
              (Ss[nat ((s + i) mod n) := Some s_i]) rd' = Inr (Cs', Ss')"
    by blast
  let ?Cs1 = "Cs[nat ((s + i + 1) mod n) := Some (hash_point H m t)]"
  let ?Ss1 = "Ss[nat ((s + i) mod n) := Some s_i]"
  have npos: "0 < n" using lt i0 by linarith
  have k: "k = nat (n - (i + 1))" using Suc.hyps(2) by linarith
  have IH: "length Cs' = length ring \<and> length Ss' = length ring
       \<and> (\<forall>j. i + 1 \<le> j \<and> j < n \<longrightarrow> linked H h c m ring Cs' Ss' ((s + j) mod n))
       \<and> (\<forall>j. 1 \<le> j \<and> j \<le> i + 1 \<longrightarrow> Cs' ! nat ((s + j) mod n) = ?Cs1 ! nat ((s + j) mod n))
       \<and> (\<forall>j. 0 \<le> j \<and> j < i + 1 \<longrightarrow> Ss' ! nat ((s + j) mod n) = ?Ss1 ! nat ((s + j) mod n))"
    using Suc.hyps(1) [OF k rec] Suc.prems lt by simp
  have bnd: "\<And>a. 0 \<le> (s + a) mod n \<and> (s + a) mod n < n"
    using npos by simp
  have nat_neq: "\<And>a b. a < b \<Longrightarrow> b < a + n \<Longrightarrow> nat ((s + a) mod n) \<noteq> nat ((s + b) mod n)"
    using mod_shift_neq [of _ _ n s] bnd by (metis nat_eq_iff2 )
  have natlt: "\<And>a. nat ((s + a) mod n) < length ring"
    using bnd Suc.prems(2) by (simp add: nat_less_iff)
  have lenC: "length ?Cs1 = length ring" and lenS: "length ?Ss1 = length ring"
    using Suc.prems by simp_all
  have link_i: "linked H h c m ring ?Cs1 ?Ss1 ((s + i) mod n)"
  proof -
    have "nat ((s + i) mod n) \<noteq> nat ((s + i + 1) mod n)"
      using nat_neq [of i "i + 1"] lt Suc.prems(7) by (simp add: add.assoc)
    then have a: "index ?Cs1 ((s + i) mod n) = index Cs ((s + i) mod n)"
      by (simp add: index_def)
    have b: "?Ss1 ! nat ((s + i) mod n) = Some s_i"
      using natlt [of i] Suc.prems(4) by simp
    have c: "((s + i) mod n + 1) mod n = (s + i + 1) mod n"
      by (simp add: mod_add_left_eq)
    have d: "?Cs1 ! nat ((s + i + 1) mod n) = Some (hash_point H m t)"
      using natlt [of "i + 1"] Suc.prems(3) by (simp add: add.assoc)
    have e: "ring_point h c ring ?Cs1 ((s + i) mod n) (?Ss1 ! nat ((s + i) mod n)) = Inr t"
      using pt b ring_point_cong [OF a] by simp
    show ?thesis
      unfolding linked_def e using c d Suc.prems(2) by simp
  qed
  have link_i': "linked H h c m ring Cs' Ss' ((s + i) mod n)"
  proof (rule linked_cong [OF link_i lenC])
    show "length Cs' = length ring" using IH by simp
    show "Cs' ! nat ((s + i) mod n) = ?Cs1 ! nat ((s + i) mod n)"
      using IH Suc.prems by simp
    show "Ss' ! nat ((s + i) mod n) = ?Ss1 ! nat ((s + i) mod n)"
      using IH i0 by simp
    have "((s + i) mod n + 1) mod n = (s + (i + 1)) mod n"
      by (simp add: mod_add_left_eq add.assoc)
    then show "Cs' ! nat (((s + i) mod n + 1) mod int (length ring))
             = ?Cs1 ! nat (((s + i) mod n + 1) mod int (length ring))"
      using IH Suc.prems by simp
  qed
  have links: "\<forall>j. i \<le> j \<and> j < n \<longrightarrow> linked H h c m ring Cs' Ss' ((s + j) mod n)"
  proof (intro allI impI)
    fix j assume j: "i \<le> j \<and> j < n"
    show "linked H h c m ring Cs' Ss' ((s + j) mod n)"
    proof (cases "j = i")
      case True
      then show ?thesis using link_i' by simp
    next
      case False
      then show ?thesis using IH j by simp
    qed
  qed
  have keepC: "\<forall>j. 1 \<le> j \<and> j \<le> i \<longrightarrow> Cs' ! nat ((s + j) mod n) = Cs ! nat ((s + j) mod n)"
  proof (intro allI impI)
    fix j assume j: "1 \<le> j \<and> j \<le> i"
    have "Cs' ! nat ((s + j) mod n) = ?Cs1 ! nat ((s + j) mod n)"
      using IH j by simp
    also have "\<dots> = Cs ! nat ((s + j) mod n)"
      using nat_neq [of j "i + 1"] j lt by (simp add: add.assoc)
    finally show "Cs' ! nat ((s + j) mod n) = Cs ! nat ((s + j) mod n)" .
  qed
  have keepS: "\<forall>j. 0 \<le> j \<and> j < i \<longrightarrow> Ss' ! nat ((s + j) mod n) = Ss ! nat ((s + j) mod n)"
  proof (intro allI impI)
    fix j assume j: "0 \<le> j \<and> j < i"
    have "Ss' ! nat ((s + j) mod n) = ?Ss1 ! nat ((s + j) mod n)"
      using IH j by simp
    also have "\<dots> = Ss ! nat ((s + j) mod n)"
      using nat_neq [of j i] j lt by simp
    finally show "Ss' ! nat ((s + j) mod n) = Ss ! nat ((s + j) mod n)" .
  qed
  show ?case using IH links keepC keepS by simp
qed


lemma Sign_InrE:
  assumes "Sign H h m ring privkey s rd = Inr sg"
  obtains k u rd' Cs2 Ss2 c cd t C_next where
    "privkey = Some k" and "2 \<le> int (length ring)" and "0 \<le> s" and "s < int (length ring)"
    and "priv_PublicKey k < length h"
    and "ring ! nat s = Some (priv_PublicKey k)"
    and "rand_Int rd (Params_P (pub_Curve (h ! priv_PublicKey k))) = (Inr u, rd')"
    and "Sign_loop H h (pub_Curve (h ! priv_PublicKey k)) m ring (int (length ring)) s 1
           ((replicate (length ring) None)
              [nat ((s + 1) mod int (length ring)) :=
                 Some (SetBytes (H (m @ Bytes (fst (ScalarBaseMult (pub_Curve (h ! priv_PublicKey k)) (Bytes u)))
                                      @ Bytes (snd (ScalarBaseMult (pub_Curve (h ! priv_PublicKey k)) (Bytes u))))))])
           (replicate (length ring) None) rd' = Inr (Cs2, Ss2)"
    and "s < int (length Cs2)" and "Cs2 ! nat s = Some c"
    and "big_Mod (c * priv_D k) (Params_N (pub_Curve (h ! priv_PublicKey k))) = Inr cd"
    and "s < int (length Ss2)"
    and "ring_point h (pub_Curve (h ! priv_PublicKey k)) ring Cs2 s (Some (u - cd)) = Inr t"
    and "Bytes (fst t) = Bytes (fst (ScalarBaseMult (pub_Curve (h ! priv_PublicKey k)) (Bytes u)))"
    and "Bytes (snd t) = Bytes (snd (ScalarBaseMult (pub_Curve (h ! priv_PublicKey k)) (Bytes u)))"
    and "(s + 1) mod int (length ring) < int (length Cs2)"
    and "Cs2 ! nat ((s + 1) mod int (length ring)) = Some C_next"
    and "Bytes C_next = Bytes (hash_point H m t)"
    and "0 < length Cs2"
    and "sg = \<lparr>sig_Size = int (length ring), sig_M = m, sig_C = Cs2 ! 0,
               sig_S = Ss2[nat s := Some (u - cd)], sig_Ring = ring,
               sig_Curve = pub_Curve (h ! priv_PublicKey k)\<rparr>"
proof -
  have r: "0 \<le> s \<Longrightarrow> 2 \<le> int (length ring) \<Longrightarrow> go_rem (s + 1) (int (length ring)) = (s + 1) mod int (length ring)"
    by (rule go_rem_nonneg) auto
  show ?thesis
    using assms that unfolding Sign_def Let_def
    by (auto simp: bindE_eq_Inr index_eq_Inr store_eq_Inr make_slice_def deref_def big_Bytes_def r
        split: if_splits option.splits sum.splits prod.splits)
qed

lemma Sign_closed:
  assumes "Sign H h m ring privkey s rd = Inr sg"
  obtains k Cs where
    "privkey = Some k" and "2 \<le> int (length ring)" and "0 \<le> s" and "s < int (length ring)"
    and "priv_PublicKey k < length h"
    and "ring ! nat s = Some (priv_PublicKey k)"
    and "length Cs = length ring" and "length (sig_S sg) = length ring"
    and "sig_Size sg = int (length ring)" and "sig_M sg = m" and "sig_Ring sg = ring"
    and "sig_C sg = Cs ! 0" and "sig_Curve sg = pub_Curve (h ! priv_PublicKey k)"
    and "\<forall>idx. 0 \<le> idx \<and> idx < int (length ring) \<longrightarrow>
           linked H h (pub_Curve (h ! priv_PublicKey k)) m ring Cs (sig_S sg) idx"
proof -
  let ?n = "int (length ring)"
  from assms obtain k u rd' Cs2 Ss2 c cd t C_next where
    pk: "privkey = Some k" and n2: "2 \<le> ?n" and s0: "0 \<le> s" and sn: "s < ?n"
    and kh: "priv_PublicKey k < length h"
    and rs: "ring ! nat s = Some (priv_PublicKey k)"
    and loop: "Sign_loop H h (pub_Curve (h ! priv_PublicKey k)) m ring ?n s 1
           ((replicate (length ring) None)
              [nat ((s + 1) mod ?n) :=
                 Some (SetBytes (H (m @ Bytes (fst (ScalarBaseMult (pub_Curve (h ! priv_PublicKey k)) (Bytes u)))
                                      @ Bytes (snd (ScalarBaseMult (pub_Curve (h ! priv_PublicKey k)) (Bytes u))))))])
           (replicate (length ring) None) rd' = Inr (Cs2, Ss2)"
    and pt: "ring_point h (pub_Curve (h ! priv_PublicKey k)) ring Cs2 s (Some (u - cd)) = Inr t"
    and nx: "Cs2 ! nat ((s + 1) mod ?n) = Some C_next"
    and nb: "Bytes C_next = Bytes (hash_point H m t)"
    and sg: "sg = \<lparr>sig_Size = ?n, sig_M = m, sig_C = Cs2 ! 0,
               sig_S = Ss2[nat s := Some (u - cd)], sig_Ring = ring,
               sig_Curve = pub_Curve (h ! priv_PublicKey k)\<rparr>"
    by (rule Sign_InrE) blast
  let ?c = "pub_Curve (h ! priv_PublicKey k)"
  let ?Cs1 = "(replicate (length ring) None)
              [nat ((s + 1) mod ?n) :=
                 Some (SetBytes (H (m @ Bytes (fst (ScalarBaseMult ?c (Bytes u)))
                                      @ Bytes (snd (ScalarBaseMult ?c (Bytes u))))))]"
  let ?Ss3 = "Ss2[nat s := Some (u - cd)]"
  have inv: "length Cs2 = length ring \<and> length Ss2 = length ring
       \<and> (\<forall>j. 1 \<le> j \<and> j < ?n \<longrightarrow> linked H h ?c m ring Cs2 Ss2 ((s + j) mod ?n))
       \<and> (\<forall>j. 1 \<le> j \<and> j \<le> 1 \<longrightarrow> Cs2 ! nat ((s + j) mod ?n) = ?Cs1 ! nat ((s + j) mod ?n))
       \<and> (\<forall>j. 0 \<le> j \<and> j < 1 \<longrightarrow> Ss2 ! nat ((s + j) mod ?n) = replicate (length ring) None ! nat ((s + j) mod ?n))"
    using n2 s0 sn by (intro Sign_loop_inv [OF loop]) simp_all
  have lenC: "length Cs2 = length ring" and lenS: "length Ss2 = length ring"
    using inv by simp_all
  have npos: "0 < ?n" using n2 by linarith
  have bnd: "nat ((s + a) mod ?n) < length ring" for a
  proof -
    from npos have "0 \<le> (s + a) mod ?n" "(s + a) mod ?n < ?n"
      by simp_all
    then show ?thesis by linarith
  qed
  have "Cs2 ! nat ((s + 1) mod ?n) = ?Cs1 ! nat ((s + 1) mod ?n)"
    using inv by simp
  then have "0 \<le> C_next"
    using nx bnd [of 1] by (auto simp: SetBytes_nonneg)
  then have nxt: "C_next = hash_point H m t"
    using nb by (intro Bytes_inj_nonneg) (simp_all add: hash_point_nonneg)
  have smod: "s mod ?n = s" using s0 sn by simp
  have link_s: "linked H h ?c m ring Cs2 ?Ss3 s"
    using pt nx nxt s0 sn lenS by (simp add: linked_def)
  have link_other: "linked H h ?c m ring Cs2 ?Ss3 ((s + j) mod ?n)" if j: "1 \<le> j" "j < ?n" for j
  proof -
    have ne: "(s + 0) mod ?n \<noteq> (s + j) mod ?n"
      using j by (intro mod_shift_neq) simp_all
    have "0 \<le> (s + j) mod ?n" using npos by simp
    then have "nat s \<noteq> nat ((s + j) mod ?n)"
      using ne smod s0 by (simp add: nat_eq_iff)
    then have keep: "?Ss3 ! nat ((s + j) mod ?n) = Ss2 ! nat ((s + j) mod ?n)"
      by simp
    have old: "linked H h ?c m ring Cs2 Ss2 ((s + j) mod ?n)"
      using inv j by simp
    show ?thesis
      by (rule linked_cong [OF old lenC lenC refl keep refl])
  qed
  have all: "\<forall>idx. 0 \<le> idx \<and> idx < ?n \<longrightarrow> linked H h ?c m ring Cs2 ?Ss3 idx"
  proof (intro allI impI)
    fix idx assume idx: "0 \<le> idx \<and> idx < ?n"
    show "linked H h ?c m ring Cs2 ?Ss3 idx"
    proof (cases "idx = s")
      case True
      then show ?thesis using link_s by simp
    next
      case False
      have e: "(s + ((idx - s) mod ?n)) mod ?n = idx"
        using idx by (simp add: mod_add_right_eq)
      have "(idx - s) mod ?n \<noteq> 0"
      proof
        assume z: "(idx - s) mod ?n = 0"
        from e have "(s + 0) mod ?n = idx" unfolding z .
        then have "idx = s" using smod by simp
        with False show False by simp
      qed
      moreover have "0 \<le> (idx - s) mod ?n" "(idx - s) mod ?n < ?n"
        using npos by simp_all
      ultimately have "1 \<le> (idx - s) mod ?n" "(idx - s) mod ?n < ?n"
        by linarith+
      from link_other [OF this] e show ?thesis by simp
    qed
  qed
  show ?thesis
    using pk n2 s0 sn kh rs lenC lenS all sg
    by (intro that [of k Cs2]) simp_all
qed


lemma Verify_loop_done:
  "\<not> i < n \<Longrightarrow> Verify_loop H h c sg n i Cs = Inr Cs"
  by (subst Verify_loop.simps) simp

lemma Verify_loop_step:
  assumes "i < n" and "0 \<le> i" and "i < int (length (sig_S sg))" and "int (length Cv) = n"
    and "ring_point h c (sig_Ring sg) Cv i (sig_S sg ! nat i) = Inr t"
  shows "Verify_loop H h c sg n i Cv =
           Verify_loop H h c sg n (i + 1)
             (Cv[nat ((i + 1) mod n) := Some (hash_point H (sig_M sg) t)])"
proof -
  have a: "index (sig_S sg) i = Inr (sig_S sg ! nat i)"
    using assms by (simp add: index_def)
  let ?v = "Some (hash_point H (sig_M sg) t)"
  have unfold: "Verify_loop H h c sg n i Cv =
      bindE (if i = n - 1 then store Cv 0 ?v else store Cv (i + 1) ?v)
        (\<lambda>Cs'. Verify_loop H h c sg n (i + 1) Cs')"
    using assms(1) by (subst Verify_loop.simps) (simp add: a assms(5))
  have st: "(if i = n - 1 then store Cv 0 ?v else store Cv (i + 1) ?v)
          = Inr (Cv[nat ((i + 1) mod n) := ?v])"
  proof (cases "i = n - 1")
    case True
    then have "(i + 1) mod n = 0" by simp
    then show ?thesis using True assms by (simp add: store_def)
  next
    case False
    then have "(i + 1) mod n = i + 1" using assms by simp
    then show ?thesis using False assms by (simp add: store_def)
  qed
  show ?thesis
    unfolding unfold st by simp
qed

lemma Verify_loop_closed:
  assumes "\<forall>idx. 0 \<le> idx \<and> idx < n \<longrightarrow> linked H h c (sig_M sg) (sig_Ring sg) Cs (sig_S sg) idx"
    and "n = int (length (sig_Ring sg))" and "length (sig_S sg) = length (sig_Ring sg)"
    and "length Cs = length (sig_Ring sg)" and "length Cv = length (sig_Ring sg)"
    and "0 \<le> i" and "i \<le> n" and "0 < n"
    and "i < n \<Longrightarrow> Cv ! nat i = Cs ! nat i"
    and "i = n \<Longrightarrow> Cv ! 0 = Cs ! 0"
  shows "\<exists>Cv'. Verify_loop H h c sg n i Cv = Inr Cv' \<and> length Cv' = length (sig_Ring sg)
           \<and> Cv' ! 0 = Cs ! 0"
  using assms
proof (induction "nat (n - i)" arbitrary: i Cv)
  case 0
  then have "\<not> i < n" "i = n" by simp_all
  with 0 show ?case by (simp add: Verify_loop_done)
next
  case (Suc k)
  then have lt: "i < n" by linarith
  let ?ring = "sig_Ring sg"
  have same: "index Cv i = index Cs i"
    using Suc.prems lt by (simp add: index_def)
  from Suc.prems(1) lt Suc.prems(6)
  have "linked H h c (sig_M sg) ?ring Cs (sig_S sg) i" by simp
  then obtain t where
    pt: "ring_point h c ?ring Cs i (sig_S sg ! nat i) = Inr t"
    and nx: "Cs ! nat ((i + 1) mod n) = Some (hash_point H (sig_M sg) t)"
    using Suc.prems(2) by (auto simp: linked_def split: sum.splits)
  have pt': "ring_point h c ?ring Cv i (sig_S sg ! nat i) = Inr t"
    using pt ring_point_cong [OF same] by simp
  let ?Cv1 = "Cv[nat ((i + 1) mod n) := Some (hash_point H (sig_M sg) t)]"
  have step: "Verify_loop H h c sg n i Cv = Verify_loop H h c sg n (i + 1) ?Cv1"
    using lt Suc.prems by (intro Verify_loop_step [OF _ _ _ _ pt']) simp_all
  have bnd: "0 \<le> (i + 1) mod n" "(i + 1) mod n < n"
    using Suc.prems(8) by simp_all
  then have inr: "nat ((i + 1) mod n) < length Cv"
    using Suc.prems(2,5) by linarith
  have k: "k = nat (n - (i + 1))" using Suc.hyps(2) by linarith
  have p1: "i + 1 < n \<Longrightarrow> ?Cv1 ! nat (i + 1) = Cs ! nat (i + 1)"
    using nx inr Suc.prems(6) by simp
  have p2: "i + 1 = n \<Longrightarrow> ?Cv1 ! 0 = Cs ! 0"
    using nx inr by auto
  have "\<exists>Cv'. Verify_loop H h c sg n (i + 1) ?Cv1 = Inr Cv' \<and> length Cv' = length ?ring
           \<and> Cv' ! 0 = Cs ! 0"
    using Suc.prems lt by (intro Suc.hyps(1) [OF k _ _ _ _ _ _ _ _ p1 p2]) simp_all
  then show ?case using step by simp
qed

lemma ring_point_ok:
  assumes "0 \<le> idx" and "idx < int (length ring)" and "idx < int (length Cs)"
    and "ring ! nat idx = Some a" and "a < length h"
    and "Cs ! nat idx = Some c" 
  shows "\<exists>t. ring_point h curve ring Cs idx (Some v) = Inr t"
  using assms
  by (simp add: ring_point_def index_def deref_def big_Bytes_def split: prod.splits)

lemma Verify_loop_total:
  assumes "n = int (length (sig_Ring sg))" and "length (sig_S sg) = length (sig_Ring sg)"
    and "length Cv = length (sig_Ring sg)"
    and "0 \<le> i" and "i \<le> n" and "0 < n"
    and "\<forall>x \<in> set (sig_S sg). x \<noteq> None"
    and "\<forall>p \<in> set (sig_Ring sg). \<exists>a. p = Some a \<and> a < length h"
    and "i < n \<Longrightarrow> Cv ! nat i \<noteq> None"
    and "i = n \<Longrightarrow> Cv ! 0 \<noteq> None"
  shows "\<exists>Cv'. Verify_loop H h c sg n i Cv = Inr Cv' \<and> length Cv' = length (sig_Ring sg)
           \<and> Cv' ! 0 \<noteq> None"
  using assms
proof (induction "nat (n - i)" arbitrary: i Cv)
  case 0
  then have "\<not> i < n" "i = n" by simp_all
  with 0 show ?case by (simp add: Verify_loop_done)
next
  case (Suc k)
  then have lt: "i < n" by linarith
  let ?ring = "sig_Ring sg"
  have ni: "nat i < length ?ring" using lt Suc.prems by linarith
  obtain a where a: "?ring ! nat i = Some a" "a < length h"
    using Suc.prems(8) ni by (metis nth_mem)
  obtain v where v: "sig_S sg ! nat i = Some v"
    using Suc.prems(2,7) ni by (metis nth_mem not_None_eq)
  obtain c0 where c0: "Cv ! nat i = Some c0"
    using Suc.prems(9) lt by auto
  obtain t where pt: "ring_point h c ?ring Cv i (sig_S sg ! nat i) = Inr t"
    using ring_point_ok [OF Suc.prems(4) _ _ a c0, of c v] lt Suc.prems(1,3) v by auto
  let ?Cv1 = "Cv[nat ((i + 1) mod n) := Some (hash_point H (sig_M sg) t)]"
  have step: "Verify_loop H h c sg n i Cv = Verify_loop H h c sg n (i + 1) ?Cv1"
    using lt Suc.prems by (intro Verify_loop_step [OF _ _ _ _ pt]) simp_all
  have bnd: "0 \<le> (i + 1) mod n" "(i + 1) mod n < n"
    using Suc.prems(6) by simp_all
  then have inr: "nat ((i + 1) mod n) < length Cv"
    using Suc.prems(1,3) by linarith
  have k: "k = nat (n - (i + 1))" using Suc.hyps(2) by linarith
  have p1: "i + 1 < n \<Longrightarrow> ?Cv1 ! nat (i + 1) \<noteq> None"
    using inr Suc.prems(4) by simp
  have p2: "i + 1 = n \<Longrightarrow> ?Cv1 ! 0 \<noteq> None"
    using inr by auto
  have "\<exists>Cv'. Verify_loop H h c sg n (i + 1) ?Cv1 = Inr Cv' \<and> length Cv' = length ?ring
           \<and> Cv' ! 0 \<noteq> None"
    using Suc.prems lt by (intro Suc.hyps(1) [OF k _ _ _ _ _ _ _ _ p1 p2]) simp_all
  then show ?case using step by simp
qed

section \<open>The claims\<close>

subsection \<open>Signing, then verifying\<close>

text \<open>
  Claim C1. Whenever \<open>Sign\<close> returns a signature, \<open>Verify\<close> returns \<open>true\<close> on it: the
  chain of challenges, recomputed from the initial challenge around all positions of the
  ring with the emitted responses, comes back to the initial challenge. \<open>Verify\<close> takes
  the curve from \<^verbatim>\<open>ring[0]\<close> and \<open>Sign\<close> from the signer's key, so the ring is one whose
  first key carries the curve of the signer (the ring of the data model lies on one fixed
  curve). The proof uses no law of the group: the check at the end of \<open>Sign\<close> (lines
  121-132) has already compared the link at the signer's position.
\<close>

theorem sign_then_verify:
  assumes "Sign Sum256 h m ring (Some k) s rd = Inr sg"
    and "deref h (ring ! 0) = Inr pk0"
    and "pub_Curve pk0 = pub_Curve (h ! priv_PublicKey k)"
  shows "Verify Sum256 h sg = Inr True"
proof -
  let ?c = "pub_Curve (h ! priv_PublicKey k)"
  let ?n = "int (length ring)"
  from assms(1) obtain k' Cs where
    k': "Some k = Some k'" and n2: "2 \<le> ?n"
    and lenC: "length Cs = length ring" and lenS: "length (sig_S sg) = length ring"
    and size: "sig_Size sg = ?n" and msg: "sig_M sg = m" and rng: "sig_Ring sg = ring"
    and c0: "sig_C sg = Cs ! 0"
    and links: "\<forall>idx. 0 \<le> idx \<and> idx < ?n \<longrightarrow>
                  linked Sum256 h (pub_Curve (h ! priv_PublicKey k')) m ring Cs (sig_S sg) idx"
    by (rule Sign_closed) blast
  have kk: "k' = k" using k' by simp
  have npos: "0 < ?n" using n2 by linarith
  have "0 \<le> ?n - 1 \<and> ?n - 1 < ?n" using n2 by linarith
  with links have last: "linked Sum256 h ?c m ring Cs (sig_S sg) (?n - 1)"
    unfolding kk by blast
  from last obtain v where v: "Cs ! 0 = Some v"
    by (auto simp: linked_def split: sum.splits)
  let ?Cv = "(replicate (nat ?n) None)[0 := sig_C sg]"
  have mk: "make_slice (sig_Size sg) = Inr (replicate (nat ?n) (None :: int option))"
    using size by (simp add: make_slice_def)
  have st: "store (replicate (nat ?n) None) 0 (sig_C sg) = Inr ?Cv"
    using npos by (simp add: store_def)
  have ix: "index (sig_Ring sg) 0 = Inr (ring ! 0)"
    using npos rng by (simp add: index_def)
  have "\<exists>Cv'. Verify_loop Sum256 h ?c sg ?n 0 ?Cv = Inr Cv' \<and> length Cv' = length (sig_Ring sg)
          \<and> Cv' ! 0 = Cs ! 0"
  proof (rule Verify_loop_closed)
    show "\<forall>idx. 0 \<le> idx \<and> idx < ?n \<longrightarrow>
            linked Sum256 h ?c (sig_M sg) (sig_Ring sg) Cs (sig_S sg) idx"
      using links kk msg rng by simp
    show "?Cv ! nat 0 = Cs ! nat 0" using c0 npos by simp
    show "?Cv ! 0 = Cs ! 0" using c0 npos by simp
  qed (use npos rng lenS lenC in simp_all)
  then obtain Cv' where loop: "Verify_loop Sum256 h ?c sg ?n 0 ?Cv = Inr Cv'"
    and len': "length Cv' = length (sig_Ring sg)"
    and cyc: "Cv' ! 0 = Cs ! 0" by blast
  have ne: "Cv' \<noteq> []" using len' npos rng by auto
  show ?thesis
    unfolding Verify_def Let_def mk
    using st ix assms(2,3) loop cyc ne c0 v size rng
    by (simp add: index_def big_Bytes_def)
qed


text \<open>
  The theorem at the small instance: ring of three keys, signer at index 1, the reader
  answering 6, 0 and 4.
\<close>

theorem sign_then_verify_witness:
  "\<not> isl (Sign toy_Sum256 toy_heap toy_msg toy_ring (Some toy_key) 1 (toy_reader [6, 0, 4]))
   \<and> Verify toy_Sum256 toy_heap
         (projr (Sign toy_Sum256 toy_heap toy_msg toy_ring (Some toy_key) 1 (toy_reader [6, 0, 4])))
       = Inr True"
proof -
  let ?r = "Sign toy_Sum256 toy_heap toy_msg toy_ring (Some toy_key) 1 (toy_reader [6, 0, 4])"
  have a: "\<not> isl ?r" by code_simp
  then have b: "?r = Inr (projr ?r)" by simp
  have c: "deref toy_heap (toy_ring ! 0) = Inr (toy_heap ! 0)"
    by (simp add: deref_def toy_ring_def toy_heap_def)
  have d: "pub_Curve (toy_heap ! 0) = pub_Curve (toy_heap ! priv_PublicKey toy_key)"
    by (simp add: toy_heap_def toy_key_def)
  from sign_then_verify [OF b c d] a show ?thesis by simp
qed

subsection \<open>The shape of an emitted signature\<close>

text \<open>
  Claim C9. A signature that \<open>Sign\<close> returns has as many responses as the ring has
  keys, this number is its \<open>Size\<close>, every response is populated (not nil), its message
  is the message signed and its ring is the ring given.
\<close>

theorem sign_structure:
  assumes "Sign Sum256 h m ring privkey s rd = Inr sg"
  shows "sig_Size sg = int (length ring) \<and> length (sig_S sg) = length ring
       \<and> length (sig_Ring sg) = length ring
       \<and> (\<forall>x \<in> set (sig_S sg). x \<noteq> None)
       \<and> sig_M sg = m \<and> sig_Ring sg = ring"
proof -
  let ?n = "int (length ring)"
  from assms obtain k Cs where
    "privkey = Some k"
    and lenS: "length (sig_S sg) = length ring"
    and size: "sig_Size sg = ?n" and msg: "sig_M sg = m" and rng: "sig_Ring sg = ring"
    and links: "\<forall>idx. 0 \<le> idx \<and> idx < ?n \<longrightarrow>
                  linked Sum256 h (pub_Curve (h ! priv_PublicKey k)) m ring Cs (sig_S sg) idx"
    by (rule Sign_closed) blast
  have "x \<noteq> None" if x: "x \<in> set (sig_S sg)" for x
  proof -
    from x obtain i where i: "i < length (sig_S sg)" "sig_S sg ! i = x"
      by (auto simp: in_set_conv_nth)
    then have "0 \<le> int i \<and> int i < ?n" using lenS by simp
    with links have "linked Sum256 h (pub_Curve (h ! priv_PublicKey k)) m ring Cs (sig_S sg) (int i)"
      by blast
    then obtain t where
      "ring_point h (pub_Curve (h ! priv_PublicKey k)) ring Cs (int i) (sig_S sg ! i) = Inr t"
      by (auto simp: linked_def split: sum.splits)
    from ring_point_Inr [OF this] i show ?thesis by simp
  qed
  then show ?thesis using lenS size msg rng by simp
qed

text \<open>The theorem at the small instance, the reader answering 9, 0 and 4.\<close>

theorem sign_structure_witness:
  "\<not> isl (Sign toy_Sum256 toy_heap toy_msg toy_ring (Some toy_key) 1 (toy_reader [9, 0, 4]))
   \<and> sig_Size (projr (Sign toy_Sum256 toy_heap toy_msg toy_ring (Some toy_key) 1 (toy_reader [9, 0, 4]))) = 3
   \<and> length (sig_S (projr (Sign toy_Sum256 toy_heap toy_msg toy_ring (Some toy_key) 1 (toy_reader [9, 0, 4])))) = 3"
proof -
  let ?r = "Sign toy_Sum256 toy_heap toy_msg toy_ring (Some toy_key) 1 (toy_reader [9, 0, 4])"
  have a: "\<not> isl ?r" by code_simp
  then have b: "?r = Inr (projr ?r)" by simp
  from sign_structure [OF b] a show ?thesis by (simp add: toy_ring_def)
qed

subsection \<open>Verify returns a boolean\<close>

text \<open>
  Claim C5. On a well-formed signature \<open>Verify\<close> returns a boolean and does not fail:
  the ring, the responses and \<open>Size\<close> agree in length, the initial challenge and every
  response are populated, every entry of the ring points to a key in the store, and
  the ring is not empty (a ring of the data model has at least two keys; on an empty ring
  line 149 indexes an empty slice). The curve and the hash are total functions. The
  result depends on the signature and the store only, so any inconsistency in the
  message, the responses, the ring or the initial challenge can only change the boolean.
\<close>

theorem verify_total:
  assumes "sig_Size sg = int (length (sig_Ring sg))"
    and "length (sig_S sg) = length (sig_Ring sg)"
    and "0 < sig_Size sg"
    and "sig_C sg \<noteq> None"
    and "\<forall>x \<in> set (sig_S sg). x \<noteq> None"
    and "\<forall>p \<in> set (sig_Ring sg). \<exists>a. p = Some a \<and> a < length h"
  shows "\<exists>b. Verify Sum256 h sg = Inr b"
proof -
  let ?n = "sig_Size sg"
  let ?ring = "sig_Ring sg"
  let ?Cv = "(replicate (nat ?n) None)[0 := sig_C sg]"
  have ne: "?ring \<noteq> []" using assms(1,3) by auto
  have mk: "make_slice ?n = Inr (replicate (nat ?n) (None :: int option))"
    using assms(3) by (simp add: make_slice_def)
  have st: "store (replicate (nat ?n) None) 0 (sig_C sg) = Inr ?Cv"
    using assms(3) by (simp add: store_def)
  have ix: "index ?ring 0 = Inr (?ring ! 0)"
    using ne by (simp add: index_def)
  have "?ring ! 0 \<in> set ?ring" using ne by simp
  with assms(6) obtain a where a: "?ring ! 0 = Some a" "a < length h" by blast
  then have dr: "deref h (?ring ! 0) = Inr (h ! a)"
    by (simp add: deref_def)
  let ?c = "pub_Curve (h ! a)"
  have "\<exists>Cv'. Verify_loop Sum256 h ?c sg ?n 0 ?Cv = Inr Cv' \<and> length Cv' = length ?ring
           \<and> Cv' ! 0 \<noteq> None"
  proof (rule Verify_loop_total)
    show "?Cv ! nat 0 \<noteq> None" using assms(1,3,4) by simp
    show "?Cv ! 0 \<noteq> None" using assms(1,3,4) by simp
  qed (use assms in simp_all)
  then obtain Cv' v where loop: "Verify_loop Sum256 h ?c sg ?n 0 ?Cv = Inr Cv'"
    and len': "length Cv' = length ?ring" and v: "Cv' ! 0 = Some v" by auto
  have ne': "Cv' \<noteq> []" using len' ne by auto
  obtain w where w: "sig_C sg = Some w" using assms(4) by auto
  show ?thesis
    unfolding Verify_def Let_def mk
    using st ix dr loop ne' v w
    by (simp add: index_def big_Bytes_def)
qed

text \<open>
  The theorem at a tampered signature of the small instance; \<open>Verify\<close> returns
  \<open>false\<close> on it.
\<close>

theorem verify_total_witness:
  "sig_Size toy_sig = int (length (sig_Ring toy_sig))
 \<and> length (sig_S toy_sig) = length (sig_Ring toy_sig)
 \<and> 0 < sig_Size toy_sig \<and> sig_C toy_sig \<noteq> None
 \<and> list_all (\<lambda>x. x \<noteq> None) (sig_S toy_sig)
 \<and> list_all (\<lambda>p. p \<noteq> None \<and> the p < length toy_heap) (sig_Ring toy_sig)
 \<and> (\<exists>b. Verify toy_Sum256 toy_heap toy_sig = Inr b)"
proof -
  have h1: "sig_Size toy_sig = int (length (sig_Ring toy_sig))"
    and h2: "length (sig_S toy_sig) = length (sig_Ring toy_sig)"
    and h3: "0 < sig_Size toy_sig" and h4: "sig_C toy_sig \<noteq> None"
    and h5: "\<forall>x \<in> set (sig_S toy_sig). x \<noteq> None"
    and h6: "\<forall>p \<in> set (sig_Ring toy_sig). \<exists>a. p = Some a \<and> a < length toy_heap"
    by (simp_all add: toy_sig_def toy_ring_def toy_heap_def)
  have l5: "list_all (\<lambda>x. x \<noteq> None) (sig_S toy_sig)"
    and l6: "list_all (\<lambda>p. p \<noteq> None \<and> the p < length toy_heap) (sig_Ring toy_sig)"
    by (simp_all add: toy_sig_def toy_ring_def toy_heap_def)
  from verify_total [OF h1 h2 h3 h4 h5 h6] h1 h2 h3 h4 l5 l6 show ?thesis by blast
qed

lemma verify_tampered_false: "Verify toy_Sum256 toy_heap toy_sig = Inr False"
  by code_simp

text \<open>On an empty ring the store into \<^verbatim>\<open>C[0]\<close> of line 149 panics.\<close>

lemma Verify_empty_ring_panics:
  "Verify Sum256 h \<lparr>sig_Size = 0, sig_M = m, sig_C = c, sig_S = [], sig_Ring = [], sig_Curve = cu\<rparr>
     = Inl Panic"
  by (simp add: Verify_def make_slice_def store_def)

subsection \<open>The curve field of a signature\<close>

text \<open>
  Claim C10. \<open>Verify\<close> does not read the field \<^verbatim>\<open>Curve\<close> of the signature: two
  signatures that differ in this field only get the same result.
\<close>

theorem verify_ignores_curve_field:
  "Verify Sum256 h (sg\<lparr>sig_Curve := c\<rparr>) = Verify Sum256 h sg"
proof -
  have "Verify_loop Sum256 h cu (sg\<lparr>sig_Curve := c\<rparr>) n i Cs = Verify_loop Sum256 h cu sg n i Cs"
    for cu n i Cs
  proof (induction "nat (n - i)" arbitrary: i Cs)
    case 0
    then have "\<not> i < n" by simp
    then show ?case by (simp add: Verify_loop_done)
  next
    case (Suc k)
    then have k: "k = nat (n - (i + 1))" by linarith
    have ih: "Verify_loop Sum256 h cu (sg\<lparr>sig_Curve := c\<rparr>) n (i + 1)
            = Verify_loop Sum256 h cu sg n (i + 1)"
      by (rule ext) (rule Suc.hyps(1) [OF k])
    show ?case
      unfolding Verify_loop.simps [of Sum256 h cu "sg\<lparr>sig_Curve := c\<rparr>" n i Cs]
        Verify_loop.simps [of Sum256 h cu sg n i Cs]
      by (simp add: ih cong: if_cong)
  qed
  then show ?thesis by (simp add: Verify_def)
qed

subsection \<open>The order of the checks of Sign\<close>

lemma Sign_small_ring:
  "int (length ring) < 2 \<Longrightarrow> Sign Sum256 h m ring privkey s rd = Inl InvalidRingSize"
  by (simp add: Sign_def)

lemma Sign_bad_index:
  "2 \<le> int (length ring) \<Longrightarrow> s < 0 \<or> int (length ring) \<le> s \<Longrightarrow>
   Sign Sum256 h m ring privkey s rd = Inl IndexOutOfRange"
  by (auto simp: Sign_def)

lemma Sign_nil_key:
  "2 \<le> int (length ring) \<Longrightarrow> 0 \<le> s \<Longrightarrow> s < int (length ring) \<Longrightarrow>
   Sign Sum256 h m ring None s rd = Inl Panic"
  by (auto simp: Sign_def)

lemma Sign_other_pointer:
  "2 \<le> int (length ring) \<Longrightarrow> 0 \<le> s \<Longrightarrow> s < int (length ring) \<Longrightarrow>
   priv_PublicKey k < length h \<Longrightarrow> ring ! nat s \<noteq> Some (priv_PublicKey k) \<Longrightarrow>
   Sign Sum256 h m ring (Some k) s rd = Inl SignerMismatch"
  by (auto simp: Sign_def deref_def index_def)

lemma Sign_dangling_key:
  "2 \<le> int (length ring) \<Longrightarrow> 0 \<le> s \<Longrightarrow> s < int (length ring) \<Longrightarrow>
   \<not> priv_PublicKey k < length h \<Longrightarrow>
   Sign Sum256 h m ring (Some k) s rd = Inl Panic"
  by (auto simp: Sign_def deref_def)

text \<open>
  Claim C6. \<open>Sign\<close> checks its inputs in a fixed order, the first failure wins: a ring
  of fewer than two keys gives \<open>InvalidRingSize\<close> whatever the other arguments are;
  otherwise an index outside the ring gives \<open>IndexOutOfRange\<close>; otherwise a key at
  \<^verbatim>\<open>ring[s]\<close> that is not the signer's (another pointer, and so in particular another
  value) gives \<open>SignerMismatch\<close>; and the signing algorithm runs (a signature, an
  error of the random source or a failure to close the ring comes out) only when the
  three checks have passed.
\<close>

theorem sign_validation_order:
  "(int (length ring) < 2 \<longrightarrow> Sign Sum256 h m ring privkey s rd = Inl InvalidRingSize)
 \<and> (2 \<le> int (length ring) \<and> (s < 0 \<or> int (length ring) \<le> s)
      \<longrightarrow> Sign Sum256 h m ring privkey s rd = Inl IndexOutOfRange)
 \<and> (2 \<le> int (length ring) \<and> 0 \<le> s \<and> s < int (length ring)
      \<and> privkey = Some k \<and> priv_PublicKey k < length h
      \<and> ring ! nat s \<noteq> Some (priv_PublicKey k)
      \<longrightarrow> Sign Sum256 h m ring privkey s rd = Inl SignerMismatch)
 \<and> (2 \<le> int (length ring) \<and> 0 \<le> s \<and> s < int (length ring)
      \<and> privkey = Some k \<and> priv_PublicKey k < length h
      \<and> deref h (ring ! nat s) \<noteq> Inr (h ! priv_PublicKey k)
      \<longrightarrow> Sign Sum256 h m ring privkey s rd = Inl SignerMismatch)
 \<and> ((\<exists>sg. Sign Sum256 h m ring privkey s rd = Inr sg)
      \<or> Sign Sum256 h m ring privkey s rd = Inl RandomGenerationFailure
      \<or> Sign Sum256 h m ring privkey s rd = Inl RingClosureFailure
      \<longrightarrow> 2 \<le> int (length ring) \<and> 0 \<le> s \<and> s < int (length ring)
          \<and> (\<exists>k'. privkey = Some k' \<and> ring ! nat s = Some (priv_PublicKey k')))"
proof -
  let ?r = "Sign Sum256 h m ring privkey s rd"
  have c1: "int (length ring) < 2 \<longrightarrow> ?r = Inl InvalidRingSize"
    by (simp add: Sign_small_ring)
  have c2: "2 \<le> int (length ring) \<and> (s < 0 \<or> int (length ring) \<le> s) \<longrightarrow> ?r = Inl IndexOutOfRange"
    using Sign_bad_index [of ring s] by blast
  have c3: "2 \<le> int (length ring) \<and> 0 \<le> s \<and> s < int (length ring)
      \<and> privkey = Some k \<and> priv_PublicKey k < length h
      \<and> ring ! nat s \<noteq> Some (priv_PublicKey k) \<longrightarrow> ?r = Inl SignerMismatch"
    using Sign_other_pointer [of ring s k h] by blast
  have c4: "2 \<le> int (length ring) \<and> 0 \<le> s \<and> s < int (length ring)
      \<and> privkey = Some k \<and> priv_PublicKey k < length h
      \<and> deref h (ring ! nat s) \<noteq> Inr (h ! priv_PublicKey k) \<longrightarrow> ?r = Inl SignerMismatch"
  proof
    assume a: "2 \<le> int (length ring) \<and> 0 \<le> s \<and> s < int (length ring)
      \<and> privkey = Some k \<and> priv_PublicKey k < length h
      \<and> deref h (ring ! nat s) \<noteq> Inr (h ! priv_PublicKey k)"
    then have "ring ! nat s \<noteq> Some (priv_PublicKey k)"
      by (auto simp: deref_def)
    with a c3 show "?r = Inl SignerMismatch" by blast
  qed
  have c5: "(\<exists>sg. ?r = Inr sg) \<or> ?r = Inl RandomGenerationFailure \<or> ?r = Inl RingClosureFailure
      \<longrightarrow> 2 \<le> int (length ring) \<and> 0 \<le> s \<and> s < int (length ring)
          \<and> (\<exists>k'. privkey = Some k' \<and> ring ! nat s = Some (priv_PublicKey k'))"
  proof
    assume a: "(\<exists>sg. ?r = Inr sg) \<or> ?r = Inl RandomGenerationFailure \<or> ?r = Inl RingClosureFailure"
    have n: "2 \<le> int (length ring)"
    proof (rule ccontr)
      assume "\<not> 2 \<le> int (length ring)"
      then have "?r = Inl InvalidRingSize" by (simp add: Sign_small_ring)
      with a show False by auto
    qed
    have s: "0 \<le> s \<and> s < int (length ring)"
    proof (rule ccontr)
      assume "\<not> (0 \<le> s \<and> s < int (length ring))"
      then have "?r = Inl IndexOutOfRange" using n Sign_bad_index [of ring s] by auto
      with a show False by auto
    qed
    obtain k' where k': "privkey = Some k'"
    proof (cases privkey)
      case None
      then have "?r = Inl Panic" using n s by (simp add: Sign_nil_key)
      with a show ?thesis by auto
    next
      case (Some k')
      then show ?thesis by (rule that)
    qed
    have "ring ! nat s = Some (priv_PublicKey k')"
    proof (rule ccontr)
      assume ne: "ring ! nat s \<noteq> Some (priv_PublicKey k')"
      have "?r = Inl SignerMismatch \<or> ?r = Inl Panic"
        using n s ne Sign_other_pointer [of ring s k' h] Sign_dangling_key [of ring s k' h]
        unfolding k' by blast
      with a show False by auto
    qed
    with n s k' show "2 \<le> int (length ring) \<and> 0 \<le> s \<and> s < int (length ring)
          \<and> (\<exists>k'. privkey = Some k' \<and> ring ! nat s = Some (priv_PublicKey k'))"
      by simp
  qed
  from c1 c2 c3 c4 c5 show ?thesis by (intro conjI)
qed

text \<open>
  The theorem at the small instance: a ring of one key, the index 3 in a ring of three,
  the index 2 where the signer's key is at 1, and the signing that succeeds.
\<close>

theorem sign_validation_order_witness:
  "Sign toy_Sum256 toy_heap toy_msg [Some 1] (Some toy_key) 0 (toy_reader [6, 0, 4]) = Inl InvalidRingSize
 \<and> Sign toy_Sum256 toy_heap toy_msg toy_ring (Some toy_key) 3 (toy_reader [6, 0, 4]) = Inl IndexOutOfRange
 \<and> Sign toy_Sum256 toy_heap toy_msg toy_ring (Some toy_key) 2 (toy_reader [6, 0, 4]) = Inl SignerMismatch
 \<and> \<not> isl (Sign toy_Sum256 toy_heap toy_msg toy_ring (Some toy_key) 1 (toy_reader [6, 0, 4]))
 \<and> toy_ring ! nat 1 = Some (priv_PublicKey toy_key)"
proof -
  let ?rd = "toy_reader [6, 0, 4]"
  have w1: "Sign toy_Sum256 toy_heap toy_msg [Some 1] (Some toy_key) 0 ?rd = Inl InvalidRingSize"
    using sign_validation_order [of "[Some 1]" toy_Sum256 toy_heap toy_msg "Some toy_key" 0 ?rd toy_key]
    by simp
  have w2: "Sign toy_Sum256 toy_heap toy_msg toy_ring (Some toy_key) 3 ?rd = Inl IndexOutOfRange"
    using sign_validation_order [of toy_ring toy_Sum256 toy_heap toy_msg "Some toy_key" 3 ?rd toy_key]
    by (simp add: toy_ring_def)
  have w3: "Sign toy_Sum256 toy_heap toy_msg toy_ring (Some toy_key) 2 ?rd = Inl SignerMismatch"
    using sign_validation_order [of toy_ring toy_Sum256 toy_heap toy_msg "Some toy_key" 2 ?rd toy_key]
    by (simp add: toy_ring_def toy_key_def toy_heap_def)
  have a: "\<not> isl (Sign toy_Sum256 toy_heap toy_msg toy_ring (Some toy_key) 1 ?rd)"
    by code_simp
  then have "\<exists>sg. Sign toy_Sum256 toy_heap toy_msg toy_ring (Some toy_key) 1 ?rd = Inr sg"
    by (metis sum.collapse(2))
  then have w4: "toy_ring ! nat 1 = Some (priv_PublicKey toy_key)"
    using sign_validation_order [of toy_ring toy_Sum256 toy_heap toy_msg "Some toy_key" 1 ?rd toy_key]
    by auto
  from w1 w2 w3 a w4 show ?thesis by simp
qed

subsection \<open>The comparison of the signer's key\<close>

text \<open>
  Claim C2. The claim is that \<open>Sign\<close> compares the key at \<^verbatim>\<open>ring[s]\<close> with the signer's
  key by value. The code compares the two pointers (line 73): in the store of the
  small instance the key at address 3 equals the signer's key at address 1 field by field,
  and with it at \<^verbatim>\<open>ring[1]\<close> the code returns \<open>SignerMismatch\<close>.
\<close>

theorem sign_rejects_equal_key_at_other_address:
  "toy_heap ! 3 = toy_heap ! priv_PublicKey toy_key
 \<and> Sign toy_Sum256 toy_heap toy_msg [Some 0, Some 3, Some 2] (Some toy_key) 1 (toy_reader [6, 0, 4])
     = Inl SignerMismatch"
  by (simp add: Sign_def toy_heap_def toy_key_def deref_def index_def)

text \<open>In particular no signature comes out for this ring.\<close>

theorem sign_rejects_equal_key_at_other_address_witness:
  "isl (Sign toy_Sum256 toy_heap toy_msg [Some 0, Some 3, Some 2] (Some toy_key) 1
          (toy_reader [6, 0, 4]))"
  using sign_rejects_equal_key_at_other_address by simp

subsection \<open>The bound of the random scalars\<close>

text \<open>
  Claim C3. The claim is that the glue value and the responses of the other members are
  drawn below the order \<open>N\<close> of the group. The code passes \<^verbatim>\<open>curve.Params().P\<close>, the prime
  of the field, to \<^verbatim>\<open>rand.Int\<close> (lines 83 and 99): with a reader that answers every call
  with its bound minus one, the responses drawn on the small instance are 12, where \<open>P\<close>
  is 13 and \<open>N\<close> is 7.
\<close>

theorem sign_draws_below_field_prime:
  "Params_N toy_curve = 7 \<and> Params_P toy_curve = 13
 \<and> (case Sign toy_Sum256 toy_heap toy_msg toy_ring (Some toy_key) 1
           (replicate 3 (\<lambda>bound. Inr (bound - 1))) of
       Inl e \<Rightarrow> False
     | Inr sg \<Rightarrow> sig_S sg = [Some 12, Some 10, Some 12])"
proof -
  have "case Sign toy_Sum256 toy_heap toy_msg toy_ring (Some toy_key) 1
           (replicate 3 (\<lambda>bound. Inr (bound - 1))) of
       Inl e \<Rightarrow> False
     | Inr sg \<Rightarrow> sig_S sg = [Some 12, Some 10, Some 12]"
    by code_simp
  then show ?thesis by (simp add: toy_curve_def)
qed

text \<open>In particular this signing succeeds: the responses above are emitted.\<close>

theorem sign_draws_below_field_prime_witness:
  "\<not> isl (Sign toy_Sum256 toy_heap toy_msg toy_ring (Some toy_key) 1
            (replicate 3 (\<lambda>bound. Inr (bound - 1))))"
  using sign_draws_below_field_prime by (simp split: sum.splits)

subsection \<open>The response of the signer\<close>

text \<open>
  Claim C4. The claim is that the signer's response is \<open>(u - C[s] * D) mod N\<close>, a number
  in \<open>[0, N)\<close>. The code reduces the product only and subtracts it from \<open>u\<close> (line 119).
  On the small instance, where \<open>N\<close> is 7: with \<open>u = 9\<close> the signature carries the
  response 7 at the signer's index; with \<open>u = 0\<close> the difference is negative,
  \<^verbatim>\<open>Bytes\<close> drops its sign and \<open>Sign\<close> fails to close the ring.
\<close>

theorem sign_signer_response_not_reduced:
  "Params_N toy_curve = 7
 \<and> (case Sign toy_Sum256 toy_heap toy_msg toy_ring (Some toy_key) 1 (toy_reader [9, 0, 4]) of
       Inl e \<Rightarrow> False
     | Inr sg \<Rightarrow> sig_S sg ! 1 = Some 7)
 \<and> (case Sign toy_Sum256 toy_heap toy_msg toy_ring (Some toy_key) 1 (toy_reader [0, 0, 4]) of
       Inl e \<Rightarrow> e = RingClosureFailure
     | Inr sg \<Rightarrow> False)"
proof -
  have a: "case Sign toy_Sum256 toy_heap toy_msg toy_ring (Some toy_key) 1 (toy_reader [9, 0, 4]) of
       Inl e \<Rightarrow> False
     | Inr sg \<Rightarrow> sig_S sg ! 1 = Some 7"
    by code_simp
  have b: "case Sign toy_Sum256 toy_heap toy_msg toy_ring (Some toy_key) 1 (toy_reader [0, 0, 4]) of
       Inl e \<Rightarrow> e = RingClosureFailure
     | Inr sg \<Rightarrow> False"
    by code_simp
  from a b show ?thesis by (simp add: toy_curve_def)
qed

text \<open>In particular the first signing succeeds and the second fails.\<close>

theorem sign_signer_response_not_reduced_witness:
  "\<not> isl (Sign toy_Sum256 toy_heap toy_msg toy_ring (Some toy_key) 1 (toy_reader [9, 0, 4]))
 \<and> isl (Sign toy_Sum256 toy_heap toy_msg toy_ring (Some toy_key) 1 (toy_reader [0, 0, 4]))"
  using sign_signer_response_not_reduced by (simp split: sum.splits)

end
